theory Spec2Isabelle
  imports Main "HOL-Library.Word"
begin

section \<open>CryptoHash.h: the generic digest context over the EVP engine\<close>

text \<open>
  \<^verbatim>\<open>Trinity::Impl::GenericHash<HashCreator, DigestLength>\<close> wraps one OpenSSL
  \<^verbatim>\<open>EVP_MD_CTX\<close>. An object holds a pointer \<^verbatim>\<open>_ctx\<close> to the engine and the
  array \<^verbatim>\<open>_digest\<close>. Assignment compares object addresses and moves or copies what the
  pointer refers to, so the model keeps two stores: the engines, addressed by the pointer,
  and the objects, addressed by \<^verbatim>\<open>this\<close>.
\<close>

subsection \<open>Data\<close>

type_synonym byte = "8 word"

datatype error =
    AssertionFailed   \<comment> \<open>\<^verbatim>\<open>ASSERT(cond)\<close> with a false condition: the process is aborted\<close>
  | InvalidPointer    \<comment> \<open>a null or dangling pointer is dereferenced (undefined in C++)\<close>

datatype EVP_MD = EVP_md5 | EVP_sha1 | EVP_sha256 | EVP_sha512

text \<open>
  The primitive library is consumed through five operations on an engine value \<open>'c\<close>.
  Each returns OpenSSL's \<^verbatim>\<open>int\<close> result (1 is success) and the engine as it leaves it;
  \<open>EVP_DigestFinal_ex\<close> also returns the bytes it writes through its output pointer, whose
  count is what it stores in \<^verbatim>\<open>*length\<close>. \<^verbatim>\<open>EVP_MD_CTX_copy_ex(out, in)\<close> returns the
  new \<^verbatim>\<open>out\<close>. \<^verbatim>\<open>EVP_MD_CTX_new\<close> takes no algorithm. Allocation itself always
  succeeds in the model.
\<close>

record 'c EVP =
  EVP_MD_CTX_new :: 'c
  EVP_DigestInit_ex :: "'c \<Rightarrow> EVP_MD \<Rightarrow> int \<times> 'c"
  EVP_DigestUpdate :: "'c \<Rightarrow> byte list \<Rightarrow> int \<times> 'c"
  EVP_DigestFinal_ex :: "'c \<Rightarrow> int \<times> 'c \<times> byte list"
  EVP_MD_CTX_copy_ex :: "'c \<Rightarrow> 'c \<Rightarrow> int \<times> 'c"

text \<open>The template arguments of one instantiation.\<close>

record hash_alg =
  HashCreator :: EVP_MD
  DIGEST_LENGTH :: nat

text \<open>The data members: \<^verbatim>\<open>_ctx\<close> (\<open>None\<close> is \<^verbatim>\<open>nullptr\<close>) and \<^verbatim>\<open>_digest\<close>.\<close>

record GenericHash =
  ctx :: "nat option"
  digest :: "byte list"

text \<open>
  Both stores grow at the end, so an address is an index and a new address is the length;
  a freed engine and a destroyed object leave \<open>None\<close> behind and no address is reused.
\<close>

record 'c state =
  engines :: "'c option list"
  objects :: "GenericHash option list"

definition lookup :: "'a option list \<Rightarrow> nat \<Rightarrow> 'a option" where
  "lookup xs p = (if p < length xs then xs ! p else None)"

definition get_obj :: "'c state \<Rightarrow> nat \<Rightarrow> GenericHash option" where
  "get_obj s this = lookup (objects s) this"

definition set_obj :: "'c state \<Rightarrow> nat \<Rightarrow> GenericHash \<Rightarrow> 'c state" where
  "set_obj s this h = s\<lparr>objects := (objects s)[this := Some h]\<rparr>"

definition set_ctx :: "'c state \<Rightarrow> nat \<Rightarrow> 'c \<Rightarrow> 'c state" where
  "set_ctx s p c = s\<lparr>engines := (engines s)[p := Some c]\<rparr>"

text \<open>The engine an object's \<^verbatim>\<open>_ctx\<close> points to, with its address.\<close>

definition engine_of :: "'c state \<Rightarrow> GenericHash \<Rightarrow> (nat \<times> 'c) option" where
  "engine_of s h =
     (case ctx h of
        None \<Rightarrow> None
      | Some p \<Rightarrow> (case lookup (engines s) p of None \<Rightarrow> None | Some c \<Rightarrow> Some (p, c)))"

definition ASSERT :: "bool \<Rightarrow> error + 'a \<Rightarrow> error + 'a" where
  "ASSERT cond rest = (if cond then rest else Inl AssertionFailed)"

definition and_then :: "error + 'a \<Rightarrow> ('a \<Rightarrow> error + 'b) \<Rightarrow> error + 'b" where
  "and_then r f = (case r of Inl e \<Rightarrow> Inl e | Inr x \<Rightarrow> f x)"

text \<open>\<^verbatim>\<open>Digest{}\<close>: the value-initialised array.\<close>

definition Digest0 :: "hash_alg \<Rightarrow> byte list" where
  "Digest0 alg = replicate (DIGEST_LENGTH alg) 0"

subsection \<open>Construction, assignment, destruction\<close>

definition MakeCTX :: "'c EVP \<Rightarrow> 'c state \<Rightarrow> nat \<times> 'c state" where
  "MakeCTX E s = (length (engines s), s\<lparr>engines := engines s @ [Some (EVP_MD_CTX_new E)]\<rparr>)"

text \<open>A new object whose members have the given initial values; its address is returned.\<close>

definition new_obj :: "GenericHash \<Rightarrow> 'c state \<Rightarrow> nat \<times> 'c state" where
  "new_obj h s = (length (objects s), s\<lparr>objects := objects s @ [Some h]\<rparr>)"

text \<open>
  \<^verbatim>\<open>GenericHash()\<close>: the member initialisers, then the body, which initialises the
  engine \<^verbatim>\<open>_ctx\<close> points to.
\<close>

definition Construct :: "'c EVP \<Rightarrow> hash_alg \<Rightarrow> 'c state \<Rightarrow> error + nat \<times> 'c state" where
  "Construct E alg s =
     (let (p, s1) = MakeCTX E s;
          (this, s2) = new_obj \<lparr>ctx = Some p, digest = Digest0 alg\<rparr> s1
      in case lookup (engines s2) p of None \<Rightarrow> Inl InvalidPointer | Some c0 \<Rightarrow>
           let (result, c) = EVP_DigestInit_ex E c0 (HashCreator alg)
           in ASSERT (result = 1) (Inr (this, set_ctx s2 p c)))"

text \<open>\<^verbatim>\<open>operator=(GenericHash const&)\<close>\<close>

definition copy_assign :: "'c EVP \<Rightarrow> nat \<Rightarrow> nat \<Rightarrow> 'c state \<Rightarrow> error + 'c state" where
  "copy_assign E this right s =
     (if this = right then Inr s
      else case get_obj s this of None \<Rightarrow> Inl InvalidPointer | Some h \<Rightarrow>
           case get_obj s right of None \<Rightarrow> Inl InvalidPointer | Some r \<Rightarrow>
           case engine_of s h of None \<Rightarrow> Inl InvalidPointer | Some (p, out) \<Rightarrow>
           case engine_of s r of None \<Rightarrow> Inl InvalidPointer | Some (q, inp) \<Rightarrow>
             let (result, out') = EVP_MD_CTX_copy_ex E out inp
             in ASSERT (result = 1)
                  (Inr (set_obj (set_ctx s p out') this (h\<lparr>digest := digest r\<rparr>))))"

text \<open>\<^verbatim>\<open>GenericHash(GenericHash const&)\<close>\<close>

definition copy_construct :: "'c EVP \<Rightarrow> hash_alg \<Rightarrow> nat \<Rightarrow> 'c state \<Rightarrow> error + nat \<times> 'c state" where
  "copy_construct E alg right s =
     (let (p, s1) = MakeCTX E s;
          (this, s2) = new_obj \<lparr>ctx = Some p, digest = Digest0 alg\<rparr> s1
      in and_then (copy_assign E this right s2) (\<lambda>s3. Inr (this, s3)))"

text \<open>
  \<^verbatim>\<open>operator=(GenericHash&&)\<close>: two \<^verbatim>\<open>std::exchange\<close> statements. The engine the
  destination pointed to before is not freed.
\<close>

definition move_assign :: "'c EVP \<Rightarrow> hash_alg \<Rightarrow> nat \<Rightarrow> nat \<Rightarrow> 'c state \<Rightarrow> error + 'c state" where
  "move_assign E alg this right s =
     (if this = right then Inr s
      else case get_obj s this of None \<Rightarrow> Inl InvalidPointer | Some h \<Rightarrow>
           case get_obj s right of None \<Rightarrow> Inl InvalidPointer | Some r \<Rightarrow>
             let (p, s1) = MakeCTX E s;
                 s2 = set_obj (set_obj s1 right (r\<lparr>ctx := Some p\<rparr>)) this (h\<lparr>ctx := ctx r\<rparr>);
                 s3 = set_obj (set_obj s2 right \<lparr>ctx = Some p, digest = Digest0 alg\<rparr>)
                        this \<lparr>ctx = ctx r, digest = digest r\<rparr>
             in Inr s3)"

text \<open>
  \<^verbatim>\<open>GenericHash(GenericHash&&)\<close>: \<^verbatim>\<open>_ctx\<close> has no initialiser and is overwritten by the
  assignment before anything reads it; the model starts it as \<open>None\<close>.
\<close>

definition move_construct :: "'c EVP \<Rightarrow> hash_alg \<Rightarrow> nat \<Rightarrow> 'c state \<Rightarrow> error + nat \<times> 'c state" where
  "move_construct E alg right s =
     (let (this, s1) = new_obj \<lparr>ctx = None, digest = Digest0 alg\<rparr> s
      in and_then (move_assign E alg this right s1) (\<lambda>s2. Inr (this, s2)))"

text \<open>\<^verbatim>\<open>~GenericHash()\<close>, after which the object is gone.\<close>

definition Destroy :: "nat \<Rightarrow> 'c state \<Rightarrow> error + 'c state" where
  "Destroy this s =
     (case get_obj s this of
        None \<Rightarrow> Inl InvalidPointer
      | Some h \<Rightarrow>
          let s1 = (case ctx h of
                      None \<Rightarrow> s
                    | Some p \<Rightarrow> s\<lparr>engines := (engines s)[p := None]\<rparr>)
          in Inr (s1\<lparr>objects := (objects s1)[this := None]\<rparr>))"

subsection \<open>UpdateData, Finalize, GetDigest\<close>

text \<open>\<^verbatim>\<open>UpdateData(uint8 const* data, size_t len)\<close>: \<open>data\<close> is the \<open>len\<close> bytes read.\<close>

definition UpdateData :: "'c EVP \<Rightarrow> nat \<Rightarrow> byte list \<Rightarrow> 'c state \<Rightarrow> error + 'c state" where
  "UpdateData E this data s =
     (case get_obj s this of None \<Rightarrow> Inl InvalidPointer | Some h \<Rightarrow>
      case engine_of s h of None \<Rightarrow> Inl InvalidPointer | Some (p, c) \<Rightarrow>
        let (result, c') = EVP_DigestUpdate E c data
        in ASSERT (result = 1) (Inr (set_ctx s p c')))"

text \<open>\<^verbatim>\<open>UpdateData(std::string_view)\<close>: the characters, reinterpreted as bytes.\<close>

definition UpdateData_string_view :: "'c EVP \<Rightarrow> nat \<Rightarrow> string \<Rightarrow> 'c state \<Rightarrow> error + 'c state" where
  "UpdateData_string_view E this str s = UpdateData E this (map of_char str) s"

text \<open>\<^verbatim>\<open>UpdateData(std::string const&)\<close>\<close>

definition UpdateData_string :: "'c EVP \<Rightarrow> nat \<Rightarrow> string \<Rightarrow> 'c state \<Rightarrow> error + 'c state" where
  "UpdateData_string E this str s = UpdateData_string_view E this str s"

text \<open>
  \<^verbatim>\<open>std::string_view(char const*)\<close> measures its argument with \<^verbatim>\<open>strlen\<close>. The argument
  is modelled by the characters from the pointer to the end of its buffer; a scan that
  finds no terminator there has left the buffer.
\<close>

fun strlen :: "string \<Rightarrow> nat option" where
  "strlen [] = None"
| "strlen (c # cs) = (if c = CHR 0x00 then Some 0 else map_option Suc (strlen cs))"

definition string_view_of :: "string \<Rightarrow> string option" where
  "string_view_of mem = map_option (\<lambda>n. take n mem) (strlen mem)"

text \<open>\<^verbatim>\<open>UpdateData(char const*)\<close>\<close>

definition UpdateData_cstr :: "'c EVP \<Rightarrow> nat \<Rightarrow> string \<Rightarrow> 'c state \<Rightarrow> error + 'c state" where
  "UpdateData_cstr E this mem s =
     (case string_view_of mem of
        None \<Rightarrow> Inl InvalidPointer
      | Some str \<Rightarrow> UpdateData_string_view E this str s)"

text \<open>\<^verbatim>\<open>UpdateData(Container const&)\<close>, for a container of \<^verbatim>\<open>uint8\<close>.\<close>

definition UpdateData_container :: "'c EVP \<Rightarrow> nat \<Rightarrow> byte list \<Rightarrow> 'c state \<Rightarrow> error + 'c state" where
  "UpdateData_container E this c s = UpdateData E this c s"

text \<open>
  What \<open>EVP_DigestFinal_ex\<close> leaves in \<^verbatim>\<open>_digest\<close> when it writes \<open>out\<close> from the start
  of the array. Bytes written past the end of the array are not in the array.
\<close>

definition write_digest :: "byte list \<Rightarrow> byte list \<Rightarrow> byte list" where
  "write_digest out d = take (length d) (out @ drop (length out) d)"

definition Finalize :: "'c EVP \<Rightarrow> hash_alg \<Rightarrow> nat \<Rightarrow> 'c state \<Rightarrow> error + 'c state" where
  "Finalize E alg this s =
     (case get_obj s this of None \<Rightarrow> Inl InvalidPointer | Some h \<Rightarrow>
      case engine_of s h of None \<Rightarrow> Inl InvalidPointer | Some (p, c) \<Rightarrow>
        let (result, c', out) = EVP_DigestFinal_ex E c;
            s1 = set_obj (set_ctx s p c') this (h\<lparr>digest := write_digest out (digest h)\<rparr>)
        in ASSERT (result = 1) (ASSERT (length out = DIGEST_LENGTH alg) (Inr s1)))"

definition GetDigest :: "'c state \<Rightarrow> nat \<Rightarrow> error + byte list" where
  "GetDigest s this =
     (case get_obj s this of None \<Rightarrow> Inl InvalidPointer | Some h \<Rightarrow> Inr (digest h))"

subsection \<open>One-shot helpers\<close>

text \<open>\<^verbatim>\<open>GetDigestOf(uint8 const* data, size_t len)\<close>; the local dies on return.\<close>

definition GetDigestOf :: "'c EVP \<Rightarrow> hash_alg \<Rightarrow> byte list \<Rightarrow> 'c state \<Rightarrow> error + byte list \<times> 'c state" where
  "GetDigestOf E alg data s =
     and_then (Construct E alg s) (\<lambda>(hash, s1).
     and_then (UpdateData E hash data s1) (\<lambda>s2.
     and_then (Finalize E alg hash s2) (\<lambda>s3.
     and_then (GetDigest s3 hash) (\<lambda>d.
     and_then (Destroy hash s3) (\<lambda>s4. Inr (d, s4))))))"

text \<open>
  The arguments the variadic overload is called with, by the \<^verbatim>\<open>UpdateData\<close> overload
  each selects.
\<close>

datatype item =
    StringView string
  | StdString string
  | CString string
  | Container "byte list"

fun UpdateData_item :: "'c EVP \<Rightarrow> nat \<Rightarrow> item \<Rightarrow> 'c state \<Rightarrow> error + 'c state" where
  "UpdateData_item E this (StringView str) s = UpdateData_string_view E this str s"
| "UpdateData_item E this (StdString str) s = UpdateData_string E this str s"
| "UpdateData_item E this (CString mem) s = UpdateData_cstr E this mem s"
| "UpdateData_item E this (Container c) s = UpdateData_container E this c s"

text \<open>\<^verbatim>\<open>(hash.UpdateData(std::forward<Ts>(pack)), ...)\<close>: left to right.\<close>

fun UpdateData_pack :: "'c EVP \<Rightarrow> nat \<Rightarrow> item list \<Rightarrow> 'c state \<Rightarrow> error + 'c state" where
  "UpdateData_pack E this [] s = Inr s"
| "UpdateData_pack E this (x # xs) s =
     and_then (UpdateData_item E this x s) (UpdateData_pack E this xs)"

text \<open>\<^verbatim>\<open>GetDigestOf(Ts&&... pack)\<close>\<close>

definition GetDigestOf_pack :: "'c EVP \<Rightarrow> hash_alg \<Rightarrow> item list \<Rightarrow> 'c state \<Rightarrow> error + byte list \<times> 'c state" where
  "GetDigestOf_pack E alg pack s =
     and_then (Construct E alg s) (\<lambda>(hash, s1).
     and_then (UpdateData_pack E hash pack s1) (\<lambda>s2.
     and_then (Finalize E alg hash s2) (\<lambda>s3.
     and_then (GetDigest s3 hash) (\<lambda>d.
     and_then (Destroy hash s3) (\<lambda>s4. Inr (d, s4))))))"

subsection \<open>The four instantiations\<close>

text \<open>Modelled from the spec: \<^verbatim>\<open>CryptoConstants.h\<close> is not among the sources; section 6
  gives the MD5 digest as 16 bytes.\<close>

definition MD5_DIGEST_LENGTH_BYTES :: nat where
  "MD5_DIGEST_LENGTH_BYTES = 16"

text \<open>Modelled from the spec: \<^verbatim>\<open>CryptoConstants.h\<close> is not among the sources; section 6
  gives the SHA-1 digest as 20 bytes.\<close>

definition SHA1_DIGEST_LENGTH_BYTES :: nat where
  "SHA1_DIGEST_LENGTH_BYTES = 20"

text \<open>Modelled from the spec: \<^verbatim>\<open>CryptoConstants.h\<close> is not among the sources; section 6
  gives the SHA-256 digest as 32 bytes.\<close>

definition SHA256_DIGEST_LENGTH_BYTES :: nat where
  "SHA256_DIGEST_LENGTH_BYTES = 32"

text \<open>Modelled from the spec: \<^verbatim>\<open>CryptoConstants.h\<close> is not among the sources; section 6
  gives the SHA-512 digest as 64 bytes.\<close>

definition SHA512_DIGEST_LENGTH_BYTES :: nat where
  "SHA512_DIGEST_LENGTH_BYTES = 64"

definition MD5 :: hash_alg where
  "MD5 = \<lparr>HashCreator = EVP_md5, DIGEST_LENGTH = MD5_DIGEST_LENGTH_BYTES\<rparr>"

definition SHA1 :: hash_alg where
  "SHA1 = \<lparr>HashCreator = EVP_sha1, DIGEST_LENGTH = SHA1_DIGEST_LENGTH_BYTES\<rparr>"

definition SHA256 :: hash_alg where
  "SHA256 = \<lparr>HashCreator = EVP_sha256, DIGEST_LENGTH = SHA256_DIGEST_LENGTH_BYTES\<rparr>"

definition SHA512 :: hash_alg where
  "SHA512 = \<lparr>HashCreator = EVP_sha512, DIGEST_LENGTH = SHA512_DIGEST_LENGTH_BYTES\<rparr>"

subsection \<open>The engine's protocol\<close>

text \<open>
  The protocol of the primitive library, as its interface documents it: an engine is new,
  or initialised for one algorithm and holding the bytes fed so far, or finalised. Update
  and final succeed on an initialised engine only; a copy needs an initialised source.
  The digest function \<open>H\<close> is a parameter: no hash algorithm is modelled.
\<close>

datatype EVP_MD_CTX =
    Uninitialised
  | Accumulating EVP_MD "byte list"
  | Finalised EVP_MD

definition openssl :: "(EVP_MD \<Rightarrow> byte list \<Rightarrow> byte list) \<Rightarrow> EVP_MD_CTX EVP" where
  "openssl H =
     \<lparr>EVP_MD_CTX_new = Uninitialised,
      EVP_DigestInit_ex = (\<lambda>c md. (1, Accumulating md [])),
      EVP_DigestUpdate = (\<lambda>c data.
         case c of Accumulating md msg \<Rightarrow> (1, Accumulating md (msg @ data)) | _ \<Rightarrow> (0, c)),
      EVP_DigestFinal_ex = (\<lambda>c.
         case c of Accumulating md msg \<Rightarrow> (1, Finalised md, H md msg) | _ \<Rightarrow> (0, c, [])),
      EVP_MD_CTX_copy_ex = (\<lambda>out inp.
         case inp of Uninitialised \<Rightarrow> (0, out) | _ \<Rightarrow> (1, inp))\<rparr>"

subsection \<open>Vocabulary of the properties\<close>

text \<open>
  The object at \<open>this\<close> is alive with \<^verbatim>\<open>_ctx == p\<close> and \<^verbatim>\<open>_digest == d\<close>, and \<open>p\<close>
  points to the live engine \<open>c\<close>.
\<close>

definition context_at :: "'c state \<Rightarrow> nat \<Rightarrow> nat \<Rightarrow> 'c \<Rightarrow> byte list \<Rightarrow> bool" where
  "context_at s this p c d \<longleftrightarrow>
     get_obj s this = Some \<lparr>ctx = Some p, digest = d\<rparr> \<and> lookup (engines s) p = Some c"

text \<open>The bytes an argument of the variadic overload stands for, and their concatenation.\<close>

fun item_bytes :: "item \<Rightarrow> byte list option" where
  "item_bytes (StringView str) = Some (map of_char str)"
| "item_bytes (StdString str) = Some (map of_char str)"
| "item_bytes (CString mem) = map_option (map of_char) (string_view_of mem)"
| "item_bytes (Container c) = Some c"

fun pack_bytes :: "item list \<Rightarrow> byte list option" where
  "pack_bytes [] = Some []"
| "pack_bytes (x # xs) =
     (case item_bytes x of None \<Rightarrow> None | Some b \<Rightarrow> map_option ((@) b) (pack_bytes xs))"

text \<open>
  The same further updates applied to two contexts, first to \<open>a\<close> then to \<open>b\<close>, both
  finalized, and the two stored digests read.
\<close>

definition digests_after ::
  "'c EVP \<Rightarrow> hash_alg \<Rightarrow> nat \<Rightarrow> nat \<Rightarrow> item list \<Rightarrow> 'c state \<Rightarrow> error + byte list \<times> byte list" where
  "digests_after E alg a b pack s =
     and_then (UpdateData_pack E a pack s) (\<lambda>s1.
     and_then (UpdateData_pack E b pack s1) (\<lambda>s2.
     and_then (Finalize E alg a s2) (\<lambda>s3.
     and_then (Finalize E alg b s3) (\<lambda>s4.
     and_then (GetDigest s4 a) (\<lambda>da.
     and_then (GetDigest s4 b) (\<lambda>db. Inr (da, db)))))))"

subsection \<open>Concrete engines and states for the examples\<close>

text \<open>An engine whose every primitive returns \<open>r\<close>, and whose final writes \<open>out\<close>.\<close>

definition failing_engine :: "int \<Rightarrow> byte list \<Rightarrow> unit EVP" where
  "failing_engine r out =
     \<lparr>EVP_MD_CTX_new = (),
      EVP_DigestInit_ex = (\<lambda>c md. (r, ())),
      EVP_DigestUpdate = (\<lambda>c data. (r, ())),
      EVP_DigestFinal_ex = (\<lambda>c. (r, (), out)),
      EVP_MD_CTX_copy_ex = (\<lambda>out inp. (r, ()))\<rparr>"

text \<open>One object at address 0 that owns the engine at address 0.\<close>

definition one_context :: "'c \<Rightarrow> byte list \<Rightarrow> 'c state" where
  "one_context c d = \<lparr>engines = [Some c], objects = [Some \<lparr>ctx = Some 0, digest = d\<rparr>]\<rparr>"

text \<open>
  A stand-in for the digest functions in the examples: it has each algorithm's output
  length and depends on the message. It is no hash.
\<close>

definition test_digest :: "EVP_MD \<Rightarrow> byte list \<Rightarrow> byte list" where
  "test_digest md msg =
     replicate (case md of EVP_md5 \<Rightarrow> 16 | EVP_sha1 \<Rightarrow> 20 | EVP_sha256 \<Rightarrow> 32 | EVP_sha512 \<Rightarrow> 64)
       (sum_list msg + of_nat (length msg))"

text \<open>Two objects at addresses 0 and 1 that own the engines at addresses 0 and 1.\<close>

definition two_contexts :: "'c \<Rightarrow> byte list \<Rightarrow> 'c \<Rightarrow> byte list \<Rightarrow> 'c state" where
  "two_contexts c0 d0 c1 d1 =
     \<lparr>engines = [Some c0, Some c1],
      objects = [Some \<lparr>ctx = Some 0, digest = d0\<rparr>, Some \<lparr>ctx = Some 1, digest = d1\<rparr>]\<rparr>"

section \<open>Properties\<close>

subsection \<open>Self-assignment\<close>

text \<open>
  C9. Self-assignment is a no-op: copy-assigning or move-assigning a context to itself
  returns at the address comparison, with every engine and every stored digest as before.
\<close>

theorem self_assignment_noop:
  "copy_assign E this this s = Inr s \<and> move_assign E alg this this s = Inr s"
  by (simp add: copy_assign_def move_assign_def)

subsection \<open>Stores and contexts\<close>

lemma lookup_Some_less: "lookup xs p = Some v \<Longrightarrow> p < length xs"
  by (simp add: lookup_def split: if_splits)

lemma lookup_update: "lookup (xs[p := v]) q = (if q = p \<and> p < length xs then v else lookup xs q)"
  by (simp add: lookup_def)

lemma context_at_set_ctx_same:
  "context_at s this p c d \<Longrightarrow> context_at (set_ctx s p c') this p c' d"
  by (auto simp: context_at_def set_ctx_def get_obj_def lookup_update dest: lookup_Some_less)

lemma context_at_set_ctx_other:
  "context_at s this p c d \<Longrightarrow> q \<noteq> p \<Longrightarrow> context_at (set_ctx s q c') this p c d"
  by (auto simp: context_at_def set_ctx_def get_obj_def lookup_update)

lemma UpdateData_at:
  "context_at s this p c d \<Longrightarrow>
   UpdateData E this data s =
     (if fst (EVP_DigestUpdate E c data) = 1
      then Inr (set_ctx s p (snd (EVP_DigestUpdate E c data)))
      else Inl AssertionFailed)"
  by (simp add: UpdateData_def context_at_def engine_of_def ASSERT_def split: prod.splits)

lemma Finalize_at:
  "context_at s this p c d \<Longrightarrow>
   Finalize E alg this s =
     (if fst (EVP_DigestFinal_ex E c) = 1 \<and> length (snd (snd (EVP_DigestFinal_ex E c))) = DIGEST_LENGTH alg
      then Inr (set_obj (set_ctx s p (fst (snd (EVP_DigestFinal_ex E c)))) this
                  \<lparr>ctx = Some p, digest = write_digest (snd (snd (EVP_DigestFinal_ex E c))) d\<rparr>)
      else Inl AssertionFailed)"
  by (simp add: Finalize_def context_at_def engine_of_def ASSERT_def split: prod.splits)

lemma Construct_eq:
  "Construct E alg s =
     (if fst (EVP_DigestInit_ex E (EVP_MD_CTX_new E) (HashCreator alg)) = 1
      then Inr (length (objects s),
                \<lparr>engines = engines s @ [Some (snd (EVP_DigestInit_ex E (EVP_MD_CTX_new E) (HashCreator alg)))],
                 objects = objects s @ [Some \<lparr>ctx = Some (length (engines s)), digest = Digest0 alg\<rparr>]\<rparr>)
      else Inl AssertionFailed)"
  by (cases s)
     (simp add: Construct_def MakeCTX_def new_obj_def set_ctx_def lookup_def ASSERT_def
        split: prod.splits)

subsection \<open>Failing primitives and C strings\<close>

lemma one_context_at: "context_at (one_context c d) 0 0 c d"
  by (simp add: one_context_def context_at_def get_obj_def lookup_def)

text \<open>
  C5. No failure of the engine is returned to the caller. The constructor fails its
  assertion exactly when \<open>EVP_DigestInit_ex\<close> does not return 1; on a live context,
  \<open>UpdateData\<close> fails its assertion exactly when \<open>EVP_DigestUpdate\<close> does not return 1,
  and \<open>Finalize\<close> exactly when \<open>EVP_DigestFinal_ex\<close> does not return 1 or the length it
  produced is not \<open>DIGEST_LENGTH\<close>. This holds for every engine.
\<close>

theorem engine_failure_is_fatal:
  "(Construct E alg s0 = Inl AssertionFailed \<longleftrightarrow>
      fst (EVP_DigestInit_ex E (EVP_MD_CTX_new E) (HashCreator alg)) \<noteq> 1) \<and>
   (context_at s this p c d \<longrightarrow>
      (UpdateData E this data s = Inl AssertionFailed \<longleftrightarrow>
         fst (EVP_DigestUpdate E c data) \<noteq> 1) \<and>
      (Finalize E alg this s = Inl AssertionFailed \<longleftrightarrow>
         fst (EVP_DigestFinal_ex E c) \<noteq> 1 \<or>
         length (snd (snd (EVP_DigestFinal_ex E c))) \<noteq> DIGEST_LENGTH alg))"
  by (simp add: Construct_eq UpdateData_at Finalize_at)

theorem engine_failure_is_fatal_witness:
  "Construct (failing_engine 0 []) MD5 \<lparr>engines = [], objects = []\<rparr> = Inl AssertionFailed \<and>
   UpdateData (failing_engine 0 []) 0 [1, 2] (one_context () (Digest0 MD5)) = Inl AssertionFailed \<and>
   Finalize (failing_engine 0 []) MD5 0 (one_context () (Digest0 MD5)) = Inl AssertionFailed \<and>
   Finalize (failing_engine 1 [7, 7]) MD5 0 (one_context () (Digest0 MD5)) = Inl AssertionFailed"
  using engine_failure_is_fatal [of "failing_engine 0 []" MD5 "\<lparr>engines = [], objects = []\<rparr>"
          "one_context () (Digest0 MD5)" 0 0 "()" "Digest0 MD5" "[1, 2]"]
        engine_failure_is_fatal [of "failing_engine 1 [7, 7]" MD5 "\<lparr>engines = [], objects = []\<rparr>"
          "one_context () (Digest0 MD5)" 0 0 "()" "Digest0 MD5" "[1, 2]"]
        one_context_at [of "()" "Digest0 MD5"]
  by (simp add: failing_engine_def MD5_def MD5_DIGEST_LENGTH_BYTES_def)

lemma strlen_Some:
  "strlen mem = Some n \<Longrightarrow>
   n < length mem \<and> mem ! n = CHR 0x00 \<and> CHR 0x00 \<notin> set (take n mem)"
proof (induction mem arbitrary: n)
  case Nil
  then show ?case by simp
next
  case (Cons c cs)
  show ?case
  proof (cases "c = CHR 0x00")
    case True
    with Cons.prems show ?thesis by simp
  next
    case False
    with Cons.prems obtain m where m: "strlen cs = Some m" "n = Suc m"
      by auto
    from Cons.IH [OF m(1)] False m(2) show ?thesis by simp
  qed
qed

lemma strlen_terminated: "CHR 0x00 \<in> set mem \<Longrightarrow> \<exists>n. strlen mem = Some n"
  by (induction mem) auto

text \<open>
  C10. \<^verbatim>\<open>UpdateData(char const*)\<close> on a terminated C string feeds the \<open>n = strlen\<close>
  characters before the first terminator and not the terminator: it is \<open>UpdateData\<close> of
  the string view of these characters, that is of their \<open>n\<close> bytes.
\<close>

theorem cstr_hashes_up_to_terminator:
  assumes "CHR 0x00 \<in> set mem"
  shows "\<exists>n. strlen mem = Some n \<and> n < length mem \<and> mem ! n = CHR 0x00 \<and>
             CHR 0x00 \<notin> set (take n mem) \<and>
             UpdateData_cstr E this mem s = UpdateData_string_view E this (take n mem) s \<and>
             UpdateData_cstr E this mem s = UpdateData E this (map of_char (take n mem)) s \<and>
             length (map of_char (take n mem) :: byte list) = n"
proof -
  from strlen_terminated [OF assms] obtain n where n: "strlen mem = Some n" ..
  from strlen_Some [OF n] n show ?thesis
    by (simp add: UpdateData_cstr_def string_view_of_def UpdateData_string_view_def)
qed

theorem cstr_hashes_up_to_terminator_witness:
  "strlen (''ab'' @ [CHR 0x00] @ ''c'') = Some 2 \<and>
   UpdateData_cstr (failing_engine 1 []) 0 (''ab'' @ [CHR 0x00] @ ''c'') (one_context () []) =
   UpdateData (failing_engine 1 []) 0 [of_char CHR ''a'', of_char CHR ''b''] (one_context () [])"
  using cstr_hashes_up_to_terminator
          [of "''ab'' @ [CHR 0x00] @ ''c''" "failing_engine 1 []" 0 "one_context () []"]
  by auto

subsection \<open>The protocol engine\<close>

lemma set_ctx_same: "lookup (engines s) p = Some c \<Longrightarrow> set_ctx s p c = s"
  by (cases s) (auto simp: set_ctx_def lookup_def list_update_same_conv split: if_splits)

lemma set_ctx_twice: "set_ctx (set_ctx s p c) p c' = set_ctx s p c'"
  by (simp add: set_ctx_def)

lemma write_digest_length: "length (write_digest out d) = length d"
  by (simp add: write_digest_def)

lemma write_digest_full: "length out = length d \<Longrightarrow> write_digest out d = out"
  by (simp add: write_digest_def)

lemma context_at_get: "context_at s this p c d \<Longrightarrow> GetDigest s this = Inr d"
  by (simp add: context_at_def GetDigest_def)

lemma context_at_set_obj_same:
  "context_at s this p c d \<Longrightarrow> context_at (set_obj s this \<lparr>ctx = Some p, digest = d'\<rparr>) this p c d'"
  by (auto simp: context_at_def set_obj_def get_obj_def lookup_update dest: lookup_Some_less)

lemma context_at_set_obj_other:
  "context_at s this p c d \<Longrightarrow> other \<noteq> this \<Longrightarrow> context_at (set_obj s other h) this p c d"
  by (auto simp: context_at_def set_obj_def get_obj_def lookup_update)

lemma acc_update:
  "context_at s this p (Accumulating md msg) d \<Longrightarrow>
   UpdateData (openssl H) this data s = Inr (set_ctx s p (Accumulating md (msg @ data)))"
  by (simp add: UpdateData_at openssl_def)

lemma acc_item:
  "context_at s this p (Accumulating md msg) d \<Longrightarrow> item_bytes x = Some b \<Longrightarrow>
   UpdateData_item (openssl H) this x s = Inr (set_ctx s p (Accumulating md (msg @ b)))"
  by (cases x)
     (auto simp: acc_update UpdateData_string_view_def UpdateData_string_def
        UpdateData_cstr_def UpdateData_container_def)

lemma acc_pack:
  "context_at s this p (Accumulating md msg) d \<Longrightarrow> pack_bytes xs = Some bs \<Longrightarrow>
   UpdateData_pack (openssl H) this xs s = Inr (set_ctx s p (Accumulating md (msg @ bs)))"
proof (induction xs arbitrary: s msg bs)
  case Nil
  then show ?case by (simp add: set_ctx_same context_at_def)
next
  case (Cons x xs)
  from Cons.prems(2) obtain b bs' where b: "item_bytes x = Some b"
    and bs': "pack_bytes xs = Some bs'" and bs: "bs = b @ bs'"
    by (auto split: option.splits)
  have step: "UpdateData_item (openssl H) this x s = Inr (set_ctx s p (Accumulating md (msg @ b)))"
    by (rule acc_item [OF Cons.prems(1) b])
  have at: "context_at (set_ctx s p (Accumulating md (msg @ b))) this p (Accumulating md (msg @ b)) d"
    by (rule context_at_set_ctx_same [OF Cons.prems(1)])
  show ?case
    by (simp add: step and_then_def Cons.IH [OF at bs'] set_ctx_twice bs)
qed

lemma acc_final:
  "context_at s this p (Accumulating md msg) d \<Longrightarrow>
   Finalize (openssl H) alg this s =
     (if length (H md msg) = DIGEST_LENGTH alg
      then Inr (set_obj (set_ctx s p (Finalised md)) this
                  \<lparr>ctx = Some p, digest = write_digest (H md msg) d\<rparr>)
      else Inl AssertionFailed)"
  by (simp add: Finalize_at openssl_def)

lemma Construct_openssl:
  "\<exists>s1. Construct (openssl H) alg s = Inr (length (objects s), s1) \<and>
        context_at s1 (length (objects s)) (length (engines s)) (Accumulating (HashCreator alg) []) (Digest0 alg) \<and>
        s1 = \<lparr>engines = engines s @ [Some (Accumulating (HashCreator alg) [])],
              objects = objects s @ [Some \<lparr>ctx = Some (length (engines s)), digest = Digest0 alg\<rparr>]\<rparr>"
  by (simp add: Construct_eq openssl_def context_at_def get_obj_def lookup_def)

subsection \<open>Streaming\<close>

lemma engine_of_context_at:
  assumes "get_obj s this = Some h" "engine_of s h = Some (p, c)"
  shows "context_at s this p c (digest h)"
proof -
  from assms(2) have "ctx h = Some p" "lookup (engines s) p = Some c"
    by (auto simp: engine_of_def split: option.splits)
  moreover from \<open>ctx h = Some p\<close> have "h = \<lparr>ctx = Some p, digest = digest h\<rparr>"
    by (cases h) simp
  ultimately show ?thesis using assms(1) by (simp add: context_at_def)
qed

lemma update_twice:
  "and_then (UpdateData (openssl H) this A s) (UpdateData (openssl H) this B) =
   UpdateData (openssl H) this (A @ B) s"
proof (cases "get_obj s this")
  case None
  then show ?thesis by (simp add: UpdateData_def and_then_def)
next
  case (Some h)
  note h = this
  show ?thesis
  proof (cases "engine_of s h")
    case None
    with h show ?thesis by (simp add: UpdateData_def and_then_def)
  next
    case (Some pc)
    obtain p c where pc: "pc = (p, c)" by (cases pc)
    have at: "context_at s this p c (digest h)"
      using h Some pc by (simp add: engine_of_context_at)
    show ?thesis
    proof (cases c)
      case Uninitialised
      with at show ?thesis by (simp add: UpdateData_at openssl_def and_then_def)
    next
      case (Accumulating md msg)
      with at have at': "context_at s this p (Accumulating md msg) (digest h)" by simp
      from context_at_set_ctx_same [OF at']
      have "context_at (set_ctx s p (Accumulating md (msg @ A))) this p
              (Accumulating md (msg @ A)) (digest h)" .
      then show ?thesis
        by (simp add: acc_update [OF at'] acc_update and_then_def set_ctx_twice)
    next
      case (Finalised md)
      with at show ?thesis by (simp add: UpdateData_at openssl_def and_then_def)
    qed
  qed
qed

lemma context_at_obj_live: "context_at s this p c d \<Longrightarrow> this < length (objects s)"
  by (auto simp: context_at_def get_obj_def dest: lookup_Some_less)

lemma acc_final_ok:
  assumes "context_at s this p (Accumulating md msg) d"
    and "length d = DIGEST_LENGTH alg" and "length (H md msg) = DIGEST_LENGTH alg"
  shows "\<exists>s'. Finalize (openssl H) alg this s = Inr s' \<and> GetDigest s' this = Inr (H md msg) \<and>
              context_at s' this p (Finalised md) (H md msg)"
proof -
  let ?s' = "set_obj (set_ctx s p (Finalised md)) this \<lparr>ctx = Some p, digest = H md msg\<rparr>"
  have "Finalize (openssl H) alg this s = Inr ?s'"
    using assms by (simp add: acc_final write_digest_full)
  moreover have at: "context_at ?s' this p (Finalised md) (H md msg)"
    by (rule context_at_set_obj_same [OF context_at_set_ctx_same [OF assms(1)]])
  moreover from at have "GetDigest ?s' this = Inr (H md msg)"
    by (rule context_at_get)
  ultimately show ?thesis by blast
qed

text \<open>
  C2. \<open>UpdateData(A)\<close>, \<open>UpdateData(B)\<close>, \<open>Finalize()\<close> has the outcome of
  \<open>UpdateData(A \<parallel> B)\<close>, \<open>Finalize()\<close>, in every state; on a context that has accumulated
  \<open>msg\<close> both end with the digest of \<open>msg \<parallel> A \<parallel> B\<close> stored, when the digest function yields
  \<open>DIGEST_LENGTH\<close> bytes.
\<close>

theorem update_concat:
  "and_then (and_then (UpdateData (openssl H) this A s) (UpdateData (openssl H) this B))
      (Finalize (openssl H) alg this) =
   and_then (UpdateData (openssl H) this (A @ B) s) (Finalize (openssl H) alg this) \<and>
   (context_at s this p (Accumulating md msg) d \<and> length d = DIGEST_LENGTH alg \<and>
    length (H md (msg @ A @ B)) = DIGEST_LENGTH alg \<longrightarrow>
      (\<exists>s'. and_then (UpdateData (openssl H) this (A @ B) s) (Finalize (openssl H) alg this) = Inr s' \<and>
            GetDigest s' this = Inr (H md (msg @ A @ B))))"
proof (intro conjI impI)
  show "and_then (and_then (UpdateData (openssl H) this A s) (UpdateData (openssl H) this B))
          (Finalize (openssl H) alg this) =
        and_then (UpdateData (openssl H) this (A @ B) s) (Finalize (openssl H) alg this)"
    by (simp only: update_twice)
next
  assume a: "context_at s this p (Accumulating md msg) d \<and> length d = DIGEST_LENGTH alg \<and>
             length (H md (msg @ A @ B)) = DIGEST_LENGTH alg"
  then have at: "context_at s this p (Accumulating md msg) d" by simp
  have at': "context_at (set_ctx s p (Accumulating md (msg @ A @ B))) this p
               (Accumulating md (msg @ A @ B)) d"
    by (rule context_at_set_ctx_same [OF at])
  from acc_final_ok [OF at', of alg H] a
  show "\<exists>s'. and_then (UpdateData (openssl H) this (A @ B) s) (Finalize (openssl H) alg this) = Inr s' \<and>
             GetDigest s' this = Inr (H md (msg @ A @ B))"
    by (auto simp: acc_update [OF at] and_then_def)
qed

lemma test_digest_length:
  "length (test_digest EVP_md5 x) = 16" "length (test_digest EVP_sha1 x) = 20"
  "length (test_digest EVP_sha256 x) = 32" "length (test_digest EVP_sha512 x) = 64"
  by (simp_all add: test_digest_def)

theorem update_concat_witness:
  "\<exists>s'. and_then (and_then (UpdateData (openssl test_digest) 0 [1, 2] (one_context (Accumulating EVP_md5 [9]) (Digest0 MD5)))
                 (UpdateData (openssl test_digest) 0 [3]))
          (Finalize (openssl test_digest) MD5 0) = Inr s' \<and>
        GetDigest s' 0 = Inr (test_digest EVP_md5 [9, 1, 2, 3])"
  using update_concat [of test_digest 0 "[1, 2]" "one_context (Accumulating EVP_md5 [9]) (Digest0 MD5)"
          "[3]" MD5 0 EVP_md5 "[9]" "Digest0 MD5"]
        one_context_at [of "Accumulating EVP_md5 [9]" "Digest0 MD5"]
  by (simp add: test_digest_length Digest0_def MD5_def MD5_DIGEST_LENGTH_BYTES_def)

subsection \<open>One-shot helpers\<close>

text \<open>What a one-shot helper does after the updates.\<close>

lemma finish_openssl:
  assumes "context_at s this p (Accumulating md msg) d" "length d = DIGEST_LENGTH alg"
    "length (H md msg) = DIGEST_LENGTH alg"
  shows "\<exists>s'. and_then (Finalize (openssl H) alg this s) (\<lambda>s3.
               and_then (GetDigest s3 this) (\<lambda>d.
               and_then (Destroy this s3) (\<lambda>s4. Inr (d, s4)))) = Inr (H md msg, s')"
proof -
  from acc_final_ok [where H = H and md = md and msg = msg, OF assms] obtain s3 where
    f: "Finalize (openssl H) alg this s = Inr s3" and g: "GetDigest s3 this = Inr (H md msg)"
    and at: "context_at s3 this p (Finalised md) (H md msg)" by blast
  from at have "\<exists>s4. Destroy this s3 = Inr s4"
    by (simp add: Destroy_def context_at_def)
  then show ?thesis by (auto simp: f g and_then_def)
qed

lemma Digest0_length: "length (Digest0 alg) = DIGEST_LENGTH alg"
  by (simp add: Digest0_def)

lemma GetDigestOf_openssl:
  assumes "length (H (HashCreator alg) data) = DIGEST_LENGTH alg"
  shows "\<exists>s'. GetDigestOf (openssl H) alg data s = Inr (H (HashCreator alg) data, s')"
proof -
  from Construct_openssl [of H alg s] obtain s1 where
    c: "Construct (openssl H) alg s = Inr (length (objects s), s1)" and
    at: "context_at s1 (length (objects s)) (length (engines s)) (Accumulating (HashCreator alg) []) (Digest0 alg)"
    by blast
  have at': "context_at (set_ctx s1 (length (engines s)) (Accumulating (HashCreator alg) data))
               (length (objects s)) (length (engines s)) (Accumulating (HashCreator alg) data) (Digest0 alg)"
    by (rule context_at_set_ctx_same [OF at])
  from finish_openssl [where H = H and md = "HashCreator alg" and msg = data, OF at' Digest0_length assms]
  show ?thesis
    by (simp add: GetDigestOf_def c and_then_def acc_update [OF at])
qed

lemma pack_eq_single:
  assumes "pack_bytes pack = Some bs"
  shows "GetDigestOf_pack (openssl H) alg pack s = GetDigestOf (openssl H) alg bs s"
proof -
  from Construct_openssl [of H alg s] obtain s1 where
    c: "Construct (openssl H) alg s = Inr (length (objects s), s1)" and
    at: "context_at s1 (length (objects s)) (length (engines s)) (Accumulating (HashCreator alg) []) (Digest0 alg)"
    by blast
  show ?thesis
    by (simp add: GetDigestOf_pack_def GetDigestOf_def c and_then_def
          acc_update [OF at] acc_pack [OF at assms])
qed

text \<open>
  C3. The variadic \<open>GetDigestOf\<close> feeds its arguments with one \<open>UpdateData\<close> each, in
  order, and finalizes once: its result is that of \<open>GetDigestOf\<close> on the concatenation of
  the arguments' bytes, by either overload, and is the digest of that concatenation when
  the digest function yields \<open>DIGEST_LENGTH\<close> bytes.
\<close>

theorem variadic_digest_is_concat:
  assumes "pack_bytes pack = Some bs"
  shows "GetDigestOf_pack (openssl H) alg pack s = GetDigestOf (openssl H) alg bs s \<and>
         GetDigestOf_pack (openssl H) alg pack s = GetDigestOf_pack (openssl H) alg [Container bs] s \<and>
         (length (H (HashCreator alg) bs) = DIGEST_LENGTH alg \<longrightarrow>
            (\<exists>s'. GetDigestOf_pack (openssl H) alg pack s = Inr (H (HashCreator alg) bs, s')))"
proof -
  have one: "pack_bytes [Container bs] = Some bs" by simp
  show ?thesis
    using GetDigestOf_openssl [of H alg bs s]
    by (auto simp: pack_eq_single [OF assms] pack_eq_single [OF one])
qed

lemma alg_simps:
  "HashCreator MD5 = EVP_md5" "DIGEST_LENGTH MD5 = 16"
  "HashCreator SHA1 = EVP_sha1" "DIGEST_LENGTH SHA1 = 20"
  "HashCreator SHA256 = EVP_sha256" "DIGEST_LENGTH SHA256 = 32"
  "HashCreator SHA512 = EVP_sha512" "DIGEST_LENGTH SHA512 = 64"
  by (simp_all add: MD5_def SHA1_def SHA256_def SHA512_def MD5_DIGEST_LENGTH_BYTES_def
        SHA1_DIGEST_LENGTH_BYTES_def SHA256_DIGEST_LENGTH_BYTES_def SHA512_DIGEST_LENGTH_BYTES_def)

theorem variadic_digest_is_concat_witness:
  "GetDigestOf_pack (openssl test_digest) SHA1
     [StringView ''ab'', CString (''cd'' @ [CHR 0x00] @ ''zz''), Container [1, 2]]
     \<lparr>engines = [], objects = []\<rparr> =
   GetDigestOf (openssl test_digest) SHA1
     (map of_char ''ab'' @ map of_char ''cd'' @ [1, 2]) \<lparr>engines = [], objects = []\<rparr> \<and>
   (\<exists>s'. GetDigestOf_pack (openssl test_digest) SHA1
           [StringView ''ab'', CString (''cd'' @ [CHR 0x00] @ ''zz''), Container [1, 2]]
           \<lparr>engines = [], objects = []\<rparr> =
         Inr (test_digest (HashCreator SHA1) (map of_char ''ab'' @ map of_char ''cd'' @ [1, 2]), s'))"
proof -
  have b: "pack_bytes [StringView ''ab'', CString (''cd'' @ [CHR 0x00] @ ''zz''), Container [1, 2]] =
           Some (map of_char ''ab'' @ map of_char ''cd'' @ [1, 2])"
    by (simp add: string_view_of_def)
  have l: "length (test_digest (HashCreator SHA1) (map of_char ''ab'' @ map of_char ''cd'' @ [1, 2])) =
           DIGEST_LENGTH SHA1"
    by (simp add: alg_simps test_digest_length)
  from variadic_digest_is_concat [OF b, of test_digest SHA1 "\<lparr>engines = [], objects = []\<rparr>"] l
  show ?thesis by blast
qed

text \<open>Any engine: the length of what a one-shot helper returns.\<close>

lemma UpdateData_keeps:
  "context_at s this p c d \<Longrightarrow> UpdateData E this data s = Inr s' \<Longrightarrow> \<exists>c'. context_at s' this p c' d"
  by (auto simp: UpdateData_at split: if_splits intro: context_at_set_ctx_same)

lemma UpdateData_item_keeps:
  "context_at s this p c d \<Longrightarrow> UpdateData_item E this x s = Inr s' \<Longrightarrow> \<exists>c'. context_at s' this p c' d"
  by (cases x)
     (auto simp: UpdateData_string_view_def UpdateData_string_def UpdateData_cstr_def
        UpdateData_container_def split: option.splits dest: UpdateData_keeps)

lemma UpdateData_pack_keeps:
  "context_at s this p c d \<Longrightarrow> UpdateData_pack E this xs s = Inr s' \<Longrightarrow> \<exists>c'. context_at s' this p c' d"
proof (induction xs arbitrary: s c)
  case Nil
  then show ?case by auto
next
  case (Cons x xs)
  from Cons.prems(2) obtain s1 where s1: "UpdateData_item E this x s = Inr s1"
    and rest: "UpdateData_pack E this xs s1 = Inr s'"
    by (auto simp: and_then_def split: sum.splits)
  from UpdateData_item_keeps [OF Cons.prems(1) s1] obtain c1 where "context_at s1 this p c1 d" ..
  from Cons.IH [OF this rest] show ?case .
qed

lemma finish_length:
  assumes "context_at s this p c d"
    and "and_then (Finalize E alg this s) (\<lambda>s3.
           and_then (GetDigest s3 this) (\<lambda>d.
           and_then (Destroy this s3) (\<lambda>s4. Inr (d, s4)))) = Inr (r, s')"
  shows "length r = length d"
proof -
  from assms(2) obtain s3 where f: "Finalize E alg this s = Inr s3"
    and g: "GetDigest s3 this = Inr r"
    by (auto simp: and_then_def split: sum.splits)
  from f assms(1) have "this < length (objects s)"
    "s3 = set_obj (set_ctx s p (fst (snd (EVP_DigestFinal_ex E c)))) this
            \<lparr>ctx = Some p, digest = write_digest (snd (snd (EVP_DigestFinal_ex E c))) d\<rparr>"
    by (auto simp: Finalize_at context_at_obj_live split: if_splits)
  with g have "r = write_digest (snd (snd (EVP_DigestFinal_ex E c))) d"
    by (auto simp: GetDigest_def get_obj_def set_obj_def set_ctx_def lookup_def)
  then show ?thesis by (simp add: write_digest_length)
qed

lemma Construct_at:
  "Construct E alg s = Inr (this, s1) \<Longrightarrow>
   context_at s1 this (length (engines s))
     (snd (EVP_DigestInit_ex E (EVP_MD_CTX_new E) (HashCreator alg))) (Digest0 alg)"
  by (auto simp: Construct_eq context_at_def get_obj_def lookup_def split: if_splits)

lemma GetDigestOf_length:
  assumes "GetDigestOf E alg data s = Inr (r, s')"
  shows "length r = DIGEST_LENGTH alg"
proof -
  from assms obtain this s1 s2 where c: "Construct E alg s = Inr (this, s1)"
    and u: "UpdateData E this data s1 = Inr s2"
    and rest: "and_then (Finalize E alg this s2) (\<lambda>s3.
           and_then (GetDigest s3 this) (\<lambda>d.
           and_then (Destroy this s3) (\<lambda>s4. Inr (d, s4)))) = Inr (r, s')"
    by (auto simp: GetDigestOf_def and_then_def split: sum.splits)
  from UpdateData_keeps [OF Construct_at [OF c] u] obtain c' where
    "context_at s2 this (length (engines s)) c' (Digest0 alg)" ..
  from finish_length [OF this rest] show ?thesis by (simp add: Digest0_length)
qed

lemma GetDigestOf_pack_length:
  assumes "GetDigestOf_pack E alg pack s = Inr (r, s')"
  shows "length r = DIGEST_LENGTH alg"
proof -
  from assms obtain this s1 s2 where c: "Construct E alg s = Inr (this, s1)"
    and u: "UpdateData_pack E this pack s1 = Inr s2"
    and rest: "and_then (Finalize E alg this s2) (\<lambda>s3.
           and_then (GetDigest s3 this) (\<lambda>d.
           and_then (Destroy this s3) (\<lambda>s4. Inr (d, s4)))) = Inr (r, s')"
    by (auto simp: GetDigestOf_pack_def and_then_def split: sum.splits)
  from UpdateData_pack_keeps [OF Construct_at [OF c] u] obtain c' where
    "context_at s2 this (length (engines s)) c' (Digest0 alg)" ..
  from finish_length [OF this rest] show ?thesis by (simp add: Digest0_length)
qed

subsection \<open>Digest length and the stored digest\<close>

text \<open>
  C6. For MD5, SHA-1, SHA-256 and SHA-512 the digest a one-shot helper returns has 16, 20,
  32 and 64 bytes: whatever the engine does, a returned digest has \<open>DIGEST_LENGTH\<close> bytes,
  and over the protocol engine the helper does return one for every byte sequence when the
  digest function yields that many bytes.
\<close>

theorem digest_length_fixed:
  assumes "alg = MD5 \<and> n = 16 \<or> alg = SHA1 \<and> n = 20 \<or> alg = SHA256 \<and> n = 32 \<or>
           alg = SHA512 \<and> n = 64"
  shows "DIGEST_LENGTH alg = n \<and>
         (\<forall>d s'. GetDigestOf E alg x s = Inr (d, s') \<longrightarrow> length d = n) \<and>
         (\<forall>d s'. GetDigestOf_pack E alg pack s = Inr (d, s') \<longrightarrow> length d = n) \<and>
         (length (H (HashCreator alg) x) = n \<longrightarrow>
            (\<exists>d s'. GetDigestOf (openssl H) alg x s = Inr (d, s') \<and> length d = n) \<and>
            (\<exists>d s'. GetDigestOf_pack (openssl H) alg [Container x] s = Inr (d, s') \<and> length d = n))"
proof -
  from assms have n: "DIGEST_LENGTH alg = n"
    by (auto simp: alg_simps)
  have one: "pack_bytes [Container x] = Some x" by simp
  have "\<exists>d s'. GetDigestOf (openssl H) alg x s = Inr (d, s') \<and> length d = n"
    if "length (H (HashCreator alg) x) = n"
    using GetDigestOf_openssl [of H alg x s] that n by auto
  then show ?thesis
    using n by (auto simp: pack_eq_single [OF one] dest: GetDigestOf_length GetDigestOf_pack_length)
qed

theorem digest_length_fixed_witness:
  "(\<exists>d s'. GetDigestOf (openssl test_digest) MD5 [1, 2, 3] \<lparr>engines = [], objects = []\<rparr> = Inr (d, s') \<and>
           length d = 16) \<and>
   (\<exists>d s'. GetDigestOf (openssl test_digest) SHA1 [1, 2, 3] \<lparr>engines = [], objects = []\<rparr> = Inr (d, s') \<and>
           length d = 20) \<and>
   (\<exists>d s'. GetDigestOf (openssl test_digest) SHA256 [] \<lparr>engines = [], objects = []\<rparr> = Inr (d, s') \<and>
           length d = 32) \<and>
   (\<exists>d s'. GetDigestOf_pack (openssl test_digest) SHA512 [Container [255]] \<lparr>engines = [], objects = []\<rparr> =
             Inr (d, s') \<and> length d = 64)"
  using digest_length_fixed [where alg = MD5 and n = 16 and H = test_digest and x = "[1, 2, 3]" and
          E = "openssl test_digest" and s = "\<lparr>engines = [], objects = []\<rparr>" and pack = "[Container [1, 2, 3]]"]
        digest_length_fixed [where alg = SHA1 and n = 20 and H = test_digest and x = "[1, 2, 3]" and
          E = "openssl test_digest" and s = "\<lparr>engines = [], objects = []\<rparr>" and pack = "[Container [1, 2, 3]]"]
        digest_length_fixed [where alg = SHA256 and n = 32 and H = test_digest and x = "[]" and
          E = "openssl test_digest" and s = "\<lparr>engines = [], objects = []\<rparr>" and pack = "[Container []]"]
        digest_length_fixed [where alg = SHA512 and n = 64 and H = test_digest and x = "[255]" and
          E = "openssl test_digest" and s = "\<lparr>engines = [], objects = []\<rparr>" and pack = "[Container [255]]"]
  by (simp add: alg_simps test_digest_length)


subsection \<open>Copying\<close>

lemma two_contexts_at:
  "context_at (two_contexts c0 d0 c1 d1) 0 0 c0 d0"
  "context_at (two_contexts c0 d0 c1 d1) (Suc 0) (Suc 0) c1 d1"
  by (simp_all add: two_contexts_def context_at_def get_obj_def lookup_def)

lemma acc_final_state:
  assumes "context_at s this p (Accumulating md msg) d"
    and "length d = DIGEST_LENGTH alg" and "length (H md msg) = DIGEST_LENGTH alg"
  shows "Finalize (openssl H) alg this s =
         Inr (set_obj (set_ctx s p (Finalised md)) this \<lparr>ctx = Some p, digest = H md msg\<rparr>)"
  using assms by (simp add: acc_final write_digest_full)

lemma two_contexts_same_digest:
  assumes a: "context_at s a p (Accumulating md msg) d"
    and b: "context_at s b q (Accumulating md msg) d"
    and ne: "a \<noteq> b" "p \<noteq> q"
    and bs: "pack_bytes pack = Some bs"
    and len: "length d = DIGEST_LENGTH alg" "length (H md (msg @ bs)) = DIGEST_LENGTH alg"
  shows "digests_after (openssl H) alg a b pack s = Inr (H md (msg @ bs), H md (msg @ bs))"
proof -
  let ?acc = "Accumulating md (msg @ bs)" and ?fin = "Finalised md"
  let ?s1 = "set_ctx s p ?acc"
  let ?s2 = "set_ctx ?s1 q ?acc"
  let ?s3 = "set_obj (set_ctx ?s2 p ?fin) a \<lparr>ctx = Some p, digest = H md (msg @ bs)\<rparr>"
  let ?s4 = "set_obj (set_ctx ?s3 q ?fin) b \<lparr>ctx = Some q, digest = H md (msg @ bs)\<rparr>"
  have a1: "context_at ?s1 a p ?acc d"
    by (rule context_at_set_ctx_same [OF a])
  have b1: "context_at ?s1 b q (Accumulating md msg) d"
    using b ne(2) by (rule context_at_set_ctx_other)
  have b2: "context_at ?s2 b q ?acc d"
    by (rule context_at_set_ctx_same [OF b1])
  have a2: "context_at ?s2 a p ?acc d"
    using a1 ne(2) [symmetric] by (rule context_at_set_ctx_other)
  have a3: "context_at ?s3 a p ?fin (H md (msg @ bs))"
    by (rule context_at_set_obj_same [OF context_at_set_ctx_same [OF a2]])
  have b3: "context_at ?s3 b q ?acc d"
    by (rule context_at_set_obj_other [OF context_at_set_ctx_other [OF b2 ne(2)] ne(1)])
  have b4: "context_at ?s4 b q ?fin (H md (msg @ bs))"
    by (rule context_at_set_obj_same [OF context_at_set_ctx_same [OF b3]])
  have a4: "context_at ?s4 a p ?fin (H md (msg @ bs))"
    by (rule context_at_set_obj_other
          [OF context_at_set_ctx_other [OF a3 ne(2) [symmetric]] ne(1) [symmetric]])
  have u1: "UpdateData_pack (openssl H) a pack s = Inr ?s1"
    by (rule acc_pack [OF a bs])
  have u2: "UpdateData_pack (openssl H) b pack ?s1 = Inr ?s2"
    by (rule acc_pack [OF b1 bs])
  have f1: "Finalize (openssl H) alg a ?s2 = Inr ?s3"
    by (rule acc_final_state [where H = H, OF a2 len])
  have f2: "Finalize (openssl H) alg b ?s3 = Inr ?s4"
    by (rule acc_final_state [where H = H, OF b3 len])
  show ?thesis
    unfolding digests_after_def
    by (simp only: u1 u2 f1 f2 context_at_get [OF a4] context_at_get [OF b4]
          and_then_def sum.case)
qed

lemma copy_assign_acc:
  assumes t: "context_at s this p c0 d0"
    and r: "context_at s right q (Accumulating md msg) d"
    and ne: "this \<noteq> right" "p \<noteq> q"
  shows "\<exists>s'. copy_assign (openssl H) this right s = Inr s' \<and>
              context_at s' this p (Accumulating md msg) d \<and>
              context_at s' right q (Accumulating md msg) d"
proof -
  let ?s' = "set_obj (set_ctx s p (Accumulating md msg)) this \<lparr>ctx = Some p, digest = d\<rparr>"
  have "copy_assign (openssl H) this right s = Inr ?s'"
    using t r ne(1)
    by (simp add: copy_assign_def context_at_def engine_of_def openssl_def ASSERT_def)
  moreover have "context_at ?s' this p (Accumulating md msg) d"
    by (rule context_at_set_obj_same [OF context_at_set_ctx_same [OF t]])
  moreover have "context_at ?s' right q (Accumulating md msg) d"
    by (rule context_at_set_obj_other
          [OF context_at_set_ctx_other [OF r ne(2)] ne(1)])
  ultimately show ?thesis by blast
qed

lemma context_at_new_engine:
  "context_at s this p c d \<Longrightarrow> context_at (s\<lparr>engines := engines s @ [x]\<rparr>) this p c d"
  by (auto simp: context_at_def get_obj_def lookup_def nth_append split: if_splits)

lemma context_at_new_object:
  "context_at s this p c d \<Longrightarrow> context_at (s\<lparr>objects := objects s @ [x]\<rparr>) this p c d"
  by (auto simp: context_at_def get_obj_def lookup_def nth_append split: if_splits)

lemma context_at_engine_live: "context_at s this p c d \<Longrightarrow> p < length (engines s)"
  by (auto simp: context_at_def dest: lookup_Some_less)

lemma copy_construct_acc:
  assumes r: "context_at s right q (Accumulating md msg) d"
  shows "\<exists>s'. copy_construct (openssl H) alg right s = Inr (length (objects s), s') \<and>
              context_at s' (length (objects s)) (length (engines s)) (Accumulating md msg) d \<and>
              context_at s' right q (Accumulating md msg) d"
proof -
  let ?cp = "length (objects s)" and ?p = "length (engines s)"
  let ?s2 = "s\<lparr>engines := engines s @ [Some Uninitialised],
               objects := objects s @ [Some \<lparr>ctx = Some ?p, digest = Digest0 alg\<rparr>]\<rparr>"
  have t2: "context_at ?s2 ?cp ?p Uninitialised (Digest0 alg)"
    by (simp add: context_at_def get_obj_def lookup_def)
  have "context_at (s\<lparr>engines := engines s @ [Some Uninitialised]\<rparr>) right q (Accumulating md msg) d"
    by (rule context_at_new_engine [OF r])
  from context_at_new_object [OF this]
  have r2: "context_at ?s2 right q (Accumulating md msg) d" by simp
  have ne: "?cp \<noteq> right" "?p \<noteq> q"
    using context_at_obj_live [OF r] context_at_engine_live [OF r] by auto
  have "copy_construct (openssl H) alg right s =
        and_then (copy_assign (openssl H) ?cp right ?s2) (\<lambda>s3. Inr (?cp, s3))"
    by (simp add: copy_construct_def MakeCTX_def new_obj_def openssl_def)
  with copy_assign_acc [OF t2 r2 ne, of H] show ?thesis
    by (auto simp: and_then_def)
qed

text \<open>
  C4. Copy construction and copy assignment from a context that has accumulated \<open>msg\<close>
  give a context with an engine of its own, at another address, holding the same \<open>msg\<close>,
  and the same stored digest. The same further updates applied to the original and to the
  copy, and both finalized, store the same digest, that of \<open>msg\<close> followed by the updates.
\<close>

theorem copy_duplicates_state:
  assumes "context_at s right q (Accumulating md msg) d"
    and "length d = DIGEST_LENGTH alg"
    and "pack_bytes pack = Some bs"
    and "length (H md (msg @ bs)) = DIGEST_LENGTH alg"
  shows "(\<exists>cp p' s'. copy_construct (openssl H) alg right s = Inr (cp, s') \<and>
            cp \<noteq> right \<and> p' \<noteq> q \<and>
            context_at s' cp p' (Accumulating md msg) d \<and>
            context_at s' right q (Accumulating md msg) d \<and>
            digests_after (openssl H) alg right cp pack s' =
              Inr (H md (msg @ bs), H md (msg @ bs))) \<and>
         (this \<noteq> right \<and> context_at s this p ct dt \<and> p \<noteq> q \<longrightarrow>
            (\<exists>s'. copy_assign (openssl H) this right s = Inr s' \<and>
               context_at s' this p (Accumulating md msg) d \<and>
               context_at s' right q (Accumulating md msg) d \<and>
               digests_after (openssl H) alg right this pack s' =
                 Inr (H md (msg @ bs), H md (msg @ bs))))"
proof (intro conjI impI)
  from copy_construct_acc [OF assms(1), of H alg] obtain s' where
    c: "copy_construct (openssl H) alg right s = Inr (length (objects s), s')" and
    t: "context_at s' (length (objects s)) (length (engines s)) (Accumulating md msg) d" and
    r: "context_at s' right q (Accumulating md msg) d"
    by blast
  have ne: "right \<noteq> length (objects s)" "q \<noteq> length (engines s)"
    using context_at_obj_live [OF assms(1)] context_at_engine_live [OF assms(1)] by auto
  have "digests_after (openssl H) alg right (length (objects s)) pack s' =
          Inr (H md (msg @ bs), H md (msg @ bs))"
    by (rule two_contexts_same_digest [where H = H, OF r t ne assms(3) assms(2) assms(4)])
  with c t r ne
  show "\<exists>cp p' s'. copy_construct (openssl H) alg right s = Inr (cp, s') \<and>
          cp \<noteq> right \<and> p' \<noteq> q \<and>
          context_at s' cp p' (Accumulating md msg) d \<and>
          context_at s' right q (Accumulating md msg) d \<and>
          digests_after (openssl H) alg right cp pack s' = Inr (H md (msg @ bs), H md (msg @ bs))"
    by (intro exI [of _ "length (objects s)"] exI [of _ "length (engines s)"] exI [of _ s']) simp
next
  assume a: "this \<noteq> right \<and> context_at s this p ct dt \<and> p \<noteq> q"
  then have ne: "this \<noteq> right" "p \<noteq> q" and t0: "context_at s this p ct dt" by auto
  from copy_assign_acc [OF t0 assms(1) ne, of H] obtain s' where
    c: "copy_assign (openssl H) this right s = Inr s'" and
    t: "context_at s' this p (Accumulating md msg) d" and
    r: "context_at s' right q (Accumulating md msg) d"
    by blast
  have "digests_after (openssl H) alg right this pack s' =
          Inr (H md (msg @ bs), H md (msg @ bs))"
    by (rule two_contexts_same_digest
          [where H = H, OF r t ne(1) [symmetric] ne(2) [symmetric] assms(3) assms(2) assms(4)])
  with c t r
  show "\<exists>s'. copy_assign (openssl H) this right s = Inr s' \<and>
          context_at s' this p (Accumulating md msg) d \<and>
          context_at s' right q (Accumulating md msg) d \<and>
          digests_after (openssl H) alg right this pack s' = Inr (H md (msg @ bs), H md (msg @ bs))"
    by (intro exI [of _ s']) simp
qed

theorem copy_duplicates_state_witness:
  "(\<exists>cp s'. copy_construct (openssl test_digest) MD5 0
              (two_contexts (Accumulating EVP_md5 [1, 2]) (Digest0 MD5) (Finalised EVP_md5) (test_digest EVP_md5 [])) =
              Inr (cp, s') \<and>
            digests_after (openssl test_digest) MD5 0 cp [Container [3], StringView ''x''] s' =
              Inr (test_digest EVP_md5 ([1, 2] @ [3] @ map of_char ''x''),
                   test_digest EVP_md5 ([1, 2] @ [3] @ map of_char ''x''))) \<and>
   (\<exists>s'. copy_assign (openssl test_digest) (Suc 0) 0
              (two_contexts (Accumulating EVP_md5 [1, 2]) (Digest0 MD5) (Finalised EVP_md5) (test_digest EVP_md5 [])) =
              Inr s' \<and>
            digests_after (openssl test_digest) MD5 0 (Suc 0) [Container [3], StringView ''x''] s' =
              Inr (test_digest EVP_md5 ([1, 2] @ [3] @ map of_char ''x''),
                   test_digest EVP_md5 ([1, 2] @ [3] @ map of_char ''x'')))"
proof -
  let ?s = "two_contexts (Accumulating EVP_md5 [1, 2]) (Digest0 MD5) (Finalised EVP_md5) (test_digest EVP_md5 [])"
  have b: "pack_bytes [Container [3], StringView ''x''] = Some ([3] @ map of_char ''x'')"
    by simp
  have l: "length (Digest0 MD5) = DIGEST_LENGTH MD5"
    "length (test_digest EVP_md5 ([1, 2] @ [3] @ map of_char ''x'')) = DIGEST_LENGTH MD5"
    by (simp_all add: Digest0_length alg_simps test_digest_length)
  have ne: "Suc 0 \<noteq> (0::nat) \<and> context_at ?s (Suc 0) (Suc 0) (Finalised EVP_md5) (test_digest EVP_md5 []) \<and>
            Suc 0 \<noteq> (0::nat)"
    by (simp add: two_contexts_at)
  note cp = copy_duplicates_state
         [where H = test_digest and this = "Suc 0" and p = "Suc 0" and ct = "Finalised EVP_md5" and
            dt = "test_digest EVP_md5 []", OF two_contexts_at(1) l(1) b l(2)]
  from cp [THEN conjunct1] have "\<exists>cp s'. copy_construct (openssl test_digest) MD5 0 ?s = Inr (cp, s') \<and>
            digests_after (openssl test_digest) MD5 0 cp [Container [3], StringView ''x''] s' =
              Inr (test_digest EVP_md5 ([1, 2] @ [3] @ map of_char ''x''),
                   test_digest EVP_md5 ([1, 2] @ [3] @ map of_char ''x''))"
    by blast
  moreover from cp [THEN conjunct2, THEN mp, OF ne]
  have "\<exists>s'. copy_assign (openssl test_digest) (Suc 0) 0 ?s = Inr s' \<and>
            digests_after (openssl test_digest) MD5 0 (Suc 0) [Container [3], StringView ''x''] s' =
              Inr (test_digest EVP_md5 ([1, 2] @ [3] @ map of_char ''x''),
                   test_digest EVP_md5 ([1, 2] @ [3] @ map of_char ''x''))"
    by blast
  ultimately show ?thesis by (rule conjI)
qed

subsection \<open>Moving\<close>

lemma move_assign_result:
  assumes ne: "this \<noteq> right" and h: "get_obj s this = Some h" and r: "context_at s right q c d"
  shows "\<exists>s'. move_assign E alg this right s = Inr s' \<and>
              context_at s' this q c d \<and>
              context_at s' right (length (engines s)) (EVP_MD_CTX_new E) (Digest0 alg)"
proof -
  from h have tl: "this < length (objects s)"
    by (auto simp: get_obj_def dest: lookup_Some_less)
  from r have rl: "right < length (objects s)" "q < length (engines s)"
    and rc: "engines s ! q = Some c"
    by (auto simp: context_at_def get_obj_def lookup_def split: if_splits)
  from ne h r tl rl rc show ?thesis
    by (simp add: move_assign_def MakeCTX_def context_at_def get_obj_def set_obj_def
          lookup_def nth_append)
qed

lemma uninitialised_aborts:
  assumes "context_at s this p Uninitialised d"
  shows "Finalize (openssl H) alg this s = Inl AssertionFailed"
    and "UpdateData (openssl H) this data s = Inl AssertionFailed"
  using assms by (simp_all add: Finalize_at UpdateData_at openssl_def)

lemma after_move:
  assumes t: "context_at s' this q c d"
    and r: "context_at s' right p Uninitialised z"
    and ne: "this \<noteq> right" "q \<noteq> p"
  shows "Finalize (openssl H) alg right s' = Inl AssertionFailed \<and>
         (data \<noteq> [] \<longrightarrow> UpdateData (openssl H) right data s' = Inl AssertionFailed) \<and>
         (\<forall>md msg. c = Accumulating md msg \<longrightarrow>
            (\<exists>s''. copy_assign (openssl H) right this s' = Inr s'' \<and>
                   context_at s'' right p (Accumulating md msg) d \<and>
                   context_at s'' this q (Accumulating md msg) d))"
  using uninitialised_aborts [OF r, of H] copy_assign_acc [OF r _ ne(1) [symmetric] ne(2) [symmetric], of _ _ d H] t
  by auto

text \<open>
  C1, as the code has it. Moving, by assignment to another live object or by construction,
  hands the engine and the stored digest to the destination and leaves the moved-from
  object with a newly allocated engine on which \<open>EVP_DigestInit_ex\<close> was never called, and
  an all-zero digest. \<open>Finalize\<close> on it fails its assertion, and so does \<open>UpdateData\<close> with
  at least one byte. It stays a valid target of assignment: copy-assigning an accumulating
  context into it makes it one.
\<close>

theorem moved_from_is_uninitialised:
  assumes "context_at s right q c d"
  shows "(this \<noteq> right \<and> get_obj s this = Some h \<longrightarrow>
            (\<exists>s'. move_assign (openssl H) alg this right s = Inr s' \<and>
               context_at s' this q c d \<and>
               context_at s' right (length (engines s)) Uninitialised (replicate (DIGEST_LENGTH alg) 0) \<and>
               Finalize (openssl H) alg right s' = Inl AssertionFailed \<and>
               (data \<noteq> [] \<longrightarrow> UpdateData (openssl H) right data s' = Inl AssertionFailed) \<and>
               (\<forall>md msg. c = Accumulating md msg \<longrightarrow>
                  (\<exists>s''. copy_assign (openssl H) right this s' = Inr s'' \<and>
                         context_at s'' right (length (engines s)) (Accumulating md msg) d \<and>
                         context_at s'' this q (Accumulating md msg) d)))) \<and>
         (\<exists>new s'. move_construct (openssl H) alg right s = Inr (new, s') \<and> new \<noteq> right \<and>
               context_at s' new q c d \<and>
               context_at s' right (length (engines s)) Uninitialised (replicate (DIGEST_LENGTH alg) 0) \<and>
               Finalize (openssl H) alg right s' = Inl AssertionFailed \<and>
               (data \<noteq> [] \<longrightarrow> UpdateData (openssl H) right data s' = Inl AssertionFailed) \<and>
               (\<forall>md msg. c = Accumulating md msg \<longrightarrow>
                  (\<exists>s''. copy_assign (openssl H) right new s' = Inr s'' \<and>
                         context_at s'' right (length (engines s)) (Accumulating md msg) d \<and>
                         context_at s'' new q (Accumulating md msg) d)))"
proof (intro conjI impI)
  have new: "EVP_MD_CTX_new (openssl H) = Uninitialised"
    by (simp add: openssl_def)
  have qp: "q \<noteq> length (engines s)"
    using context_at_engine_live [OF assms] by simp
  {
    fix t h' s0
    assume ne: "t \<noteq> right" and h': "get_obj s0 t = Some h'" and r0: "context_at s0 right q c d"
      and el: "length (engines s0) = length (engines s)"
    from move_assign_result [OF ne h' r0, of "openssl H" alg] obtain s' where
      m: "move_assign (openssl H) alg t right s0 = Inr s'" and
      t': "context_at s' t q c d" and
      r': "context_at s' right (length (engines s)) Uninitialised (Digest0 alg)"
      by (auto simp: new el)
    from after_move [OF t' r' ne qp, of H alg data] m t' r'
    have "\<exists>s'. move_assign (openssl H) alg t right s0 = Inr s' \<and>
               context_at s' t q c d \<and>
               context_at s' right (length (engines s)) Uninitialised (replicate (DIGEST_LENGTH alg) 0) \<and>
               Finalize (openssl H) alg right s' = Inl AssertionFailed \<and>
               (data \<noteq> [] \<longrightarrow> UpdateData (openssl H) right data s' = Inl AssertionFailed) \<and>
               (\<forall>md msg. c = Accumulating md msg \<longrightarrow>
                  (\<exists>s''. copy_assign (openssl H) right t s' = Inr s'' \<and>
                         context_at s'' right (length (engines s)) (Accumulating md msg) d \<and>
                         context_at s'' t q (Accumulating md msg) d))"
      by (auto simp: Digest0_def)
  }
  note core = this
  {
    assume a: "this \<noteq> right \<and> get_obj s this = Some h"
    then have a1: "this \<noteq> right" and a2: "get_obj s this = Some h" by auto
    from core [OF a1 a2 assms refl]
    show "\<exists>s'. move_assign (openssl H) alg this right s = Inr s' \<and>
               context_at s' this q c d \<and>
               context_at s' right (length (engines s)) Uninitialised (replicate (DIGEST_LENGTH alg) 0) \<and>
               Finalize (openssl H) alg right s' = Inl AssertionFailed \<and>
               (data \<noteq> [] \<longrightarrow> UpdateData (openssl H) right data s' = Inl AssertionFailed) \<and>
               (\<forall>md msg. c = Accumulating md msg \<longrightarrow>
                  (\<exists>s''. copy_assign (openssl H) right this s' = Inr s'' \<and>
                         context_at s'' right (length (engines s)) (Accumulating md msg) d \<and>
                         context_at s'' this q (Accumulating md msg) d))"
      by simp
  }
  let ?new = "length (objects s)"
  let ?s1 = "s\<lparr>objects := objects s @ [Some \<lparr>ctx = None, digest = Digest0 alg\<rparr>]\<rparr>"
  have ne: "?new \<noteq> right"
    using context_at_obj_live [OF assms] by simp
  have g: "get_obj ?s1 ?new = Some \<lparr>ctx = None, digest = Digest0 alg\<rparr>"
    by (simp add: get_obj_def lookup_def)
  have r1: "context_at ?s1 right q c d"
    by (rule context_at_new_object [OF assms])
  have mc: "move_construct (openssl H) alg right s =
            and_then (move_assign (openssl H) alg ?new right ?s1) (\<lambda>s2. Inr (?new, s2))"
    by (simp add: move_construct_def new_obj_def)
  have el: "length (engines ?s1) = length (engines s)" by simp
  from core [OF ne g r1 el] obtain s' where
    "move_assign (openssl H) alg ?new right ?s1 = Inr s'"
    "context_at s' ?new q c d"
    "context_at s' right (length (engines s)) Uninitialised (replicate (DIGEST_LENGTH alg) 0)"
    "Finalize (openssl H) alg right s' = Inl AssertionFailed"
    "data \<noteq> [] \<longrightarrow> UpdateData (openssl H) right data s' = Inl AssertionFailed"
    "\<forall>md msg. c = Accumulating md msg \<longrightarrow>
        (\<exists>s''. copy_assign (openssl H) right ?new s' = Inr s'' \<and>
               context_at s'' right (length (engines s)) (Accumulating md msg) d \<and>
               context_at s'' ?new q (Accumulating md msg) d)"
    by auto
  with mc ne
  show "\<exists>new s'. move_construct (openssl H) alg right s = Inr (new, s') \<and> new \<noteq> right \<and>
               context_at s' new q c d \<and>
               context_at s' right (length (engines s)) Uninitialised (replicate (DIGEST_LENGTH alg) 0) \<and>
               Finalize (openssl H) alg right s' = Inl AssertionFailed \<and>
               (data \<noteq> [] \<longrightarrow> UpdateData (openssl H) right data s' = Inl AssertionFailed) \<and>
               (\<forall>md msg. c = Accumulating md msg \<longrightarrow>
                  (\<exists>s''. copy_assign (openssl H) right new s' = Inr s'' \<and>
                         context_at s'' right (length (engines s)) (Accumulating md msg) d \<and>
                         context_at s'' new q (Accumulating md msg) d))"
    by (simp add: and_then_def)
qed

theorem moved_from_is_uninitialised_witness:
  "\<exists>s'. move_assign (openssl test_digest) MD5 (Suc 0) 0
          (two_contexts (Accumulating EVP_md5 [5]) (Digest0 MD5) (Accumulating EVP_md5 []) (Digest0 MD5)) = Inr s' \<and>
        context_at s' (Suc 0) 0 (Accumulating EVP_md5 [5]) (Digest0 MD5) \<and>
        context_at s' 0 2 Uninitialised (replicate 16 0) \<and>
        Finalize (openssl test_digest) MD5 0 s' = Inl AssertionFailed \<and>
        UpdateData (openssl test_digest) 0 [1] s' = Inl AssertionFailed \<and>
        (\<exists>s''. copy_assign (openssl test_digest) 0 (Suc 0) s' = Inr s'' \<and>
               context_at s'' 0 2 (Accumulating EVP_md5 [5]) (Digest0 MD5))"
proof -
  let ?s = "two_contexts (Accumulating EVP_md5 [5]) (Digest0 MD5) (Accumulating EVP_md5 []) (Digest0 MD5)"
  let ?h = "\<lparr>ctx = Some (Suc 0), digest = Digest0 MD5\<rparr>"
  have g: "Suc 0 \<noteq> (0::nat) \<and> get_obj ?s (Suc 0) = Some ?h"
    by (simp add: two_contexts_def get_obj_def lookup_def)
  have e: "length (engines ?s) = 2"
    by (simp add: two_contexts_def)
  have n: "DIGEST_LENGTH MD5 = 16"
    by (simp add: alg_simps)
  note mv = moved_from_is_uninitialised
         [where H = test_digest and alg = MD5 and this = "Suc 0" and data = "[1]" and h = ?h,
          OF two_contexts_at(1), THEN conjunct1, THEN mp, OF g, unfolded e n]
  from mv obtain s' where
    m: "move_assign (openssl test_digest) MD5 (Suc 0) 0 ?s = Inr s'" and
    t: "context_at s' (Suc 0) 0 (Accumulating EVP_md5 [5]) (Digest0 MD5)" and
    r: "context_at s' 0 2 Uninitialised (replicate 16 0)" and
    f: "Finalize (openssl test_digest) MD5 0 s' = Inl AssertionFailed" and
    u: "[1] \<noteq> ([]::byte list) \<longrightarrow> UpdateData (openssl test_digest) 0 [1] s' = Inl AssertionFailed" and
    c: "\<forall>md msg. Accumulating EVP_md5 [5] = Accumulating md msg \<longrightarrow>
          (\<exists>s''. copy_assign (openssl test_digest) 0 (Suc 0) s' = Inr s'' \<and>
                 context_at s'' 0 2 (Accumulating md msg) (Digest0 MD5) \<and>
                 context_at s'' (Suc 0) 0 (Accumulating md msg) (Digest0 MD5))"
    by (elim exE conjE)
  from u have u': "UpdateData (openssl test_digest) 0 [1] s' = Inl AssertionFailed" by simp
  from c have c': "\<exists>s''. copy_assign (openssl test_digest) 0 (Suc 0) s' = Inr s'' \<and>
                 context_at s'' 0 2 (Accumulating EVP_md5 [5]) (Digest0 MD5)"
    by simp blast
  show ?thesis
    by (rule exI [of _ s']) (simp only: m t r f u' c' simp_thms)
qed

text \<open>
  The states of the examples are the ones construction produces: one context after one
  \<^verbatim>\<open>GenericHash()\<close>, two after a second.
\<close>

lemma examples_constructed:
  "Construct (openssl test_digest) MD5 \<lparr>engines = [], objects = []\<rparr> =
     Inr (0, one_context (Accumulating EVP_md5 []) (Digest0 MD5))"
  "Construct (openssl test_digest) MD5 (one_context (Accumulating EVP_md5 []) (Digest0 MD5)) =
     Inr (Suc 0, two_contexts (Accumulating EVP_md5 []) (Digest0 MD5) (Accumulating EVP_md5 []) (Digest0 MD5))"
  by (simp_all add: Construct_eq openssl_def one_context_def two_contexts_def alg_simps)

text \<open>
  A newly constructed MD5 context finalizes to the digest of the empty input. The object
  that has been moved from, by assignment or by construction, does not: \<open>Finalize\<close> and
  \<open>UpdateData\<close> on it stop at the assertion.
\<close>

theorem moved_from_counterexample:
  "Finalize (openssl test_digest) MD5 0 (one_context (Accumulating EVP_md5 []) (Digest0 MD5)) =
     Inr (one_context (Finalised EVP_md5) (test_digest EVP_md5 [])) \<and>
   and_then (move_assign (openssl test_digest) MD5 (Suc 0) 0
               (two_contexts (Accumulating EVP_md5 []) (Digest0 MD5) (Accumulating EVP_md5 []) (Digest0 MD5)))
     (Finalize (openssl test_digest) MD5 0) = Inl AssertionFailed \<and>
   and_then (move_assign (openssl test_digest) MD5 (Suc 0) 0
               (two_contexts (Accumulating EVP_md5 []) (Digest0 MD5) (Accumulating EVP_md5 []) (Digest0 MD5)))
     (UpdateData (openssl test_digest) 0 [1]) = Inl AssertionFailed \<and>
   and_then (and_then (move_construct (openssl test_digest) MD5 0
                         (one_context (Accumulating EVP_md5 []) (Digest0 MD5))) (Inr \<circ> snd))
     (Finalize (openssl test_digest) MD5 0) = Inl AssertionFailed"
  by (simp add: Finalize_def UpdateData_def move_assign_def move_construct_def MakeCTX_def new_obj_def
        get_obj_def set_obj_def set_ctx_def engine_of_def lookup_def ASSERT_def and_then_def
        openssl_def one_context_def two_contexts_def alg_simps Digest0_def write_digest_def
        test_digest_def)

subsection \<open>The stored digest under copy and move\<close>










end
